theory Spec2Isabelle
  imports Complex_Main
begin

unbundle bit_operations_syntax

section \<open>Data model of \<open>pennylane/hf/tapering.py\<close>\<close>

text \<open>
  The module works on two kinds of values: observables (a Pauli word, read only through
  its attributes \<open>name\<close> and \<open>wires\<close>) and integer matrices (numpy arrays of dtype int).

  An observable's \<open>name\<close> is a Python string for a single operator and a list of strings
  for a tensor product. Wires are modelled as natural numbers (qubit indices). A matrix is
  the list of its rows. A matrix with no rows does not record its number of columns; every
  place of the module that reads \<open>shape[1]\<close> of a matrix with no rows behaves the same for
  every column count, which is noted where it happens.
\<close>

datatype error = IndexError | ValueError | KeyError | TypeError

datatype opname = Name string | Names "string list"

record observable =
  name :: opname
  wires :: "nat list"

text \<open>The values that the loop variable \<open>op\<close> of \<open>_binary_matrix\<close> can hold.\<close>

datatype pyval = PStr string | PList "string list"

type_synonym matrix = "int list list"

text \<open>
  A generator is a \<open>qml.Hamiltonian\<close>, read through its attribute \<open>ops\<close>.
  \<open>generate_paulis\<close> tests \<open>isinstance(g.ops, list)\<close>, so \<open>ops\<close> is either a list of
  observables or a single observable.
\<close>

datatype ops_field = OpsList "observable list" | OpsObs observable

record hamiltonian =
  coeffs :: "real list"
  ops :: ops_field

section \<open>\<open>_binary_matrix\<close>\<close>

text \<open>
  \<open>ops, wires = term.name, term.wires; if len(term.wires) == 1: ops = [ops]\<close>.
  Iterating a Python string yields its one-character strings.
\<close>

definition ops_of :: "observable \<Rightarrow> pyval list" where
  "ops_of t =
     (if length (wires t) = 1
      then [case name t of Name s \<Rightarrow> PStr s | Names l \<Rightarrow> PList l]
      else (case name t of Name s \<Rightarrow> map (\<lambda>c. PStr [c]) s | Names l \<Rightarrow> map PStr l))"

text \<open>\<open>op in [...]\<close>: a list is never equal to a string.\<close>

definition is_in :: "pyval \<Rightarrow> string list \<Rightarrow> bool" where
  "is_in v l = (case v of PStr s \<Rightarrow> s \<in> set l | PList _ \<Rightarrow> False)"

text \<open>\<open>row[i] = 1\<close>, which raises IndexError out of range.\<close>

definition set_entry :: "int list \<Rightarrow> nat \<Rightarrow> error + int list" where
  "set_entry row i = (if i < length row then Inr (row[i := 1]) else Inl IndexError)"

definition encode_pair :: "nat \<Rightarrow> int list \<Rightarrow> pyval \<times> nat \<Rightarrow> error + int list" where
  "encode_pair num_qubits row p =
     (case (if is_in (fst p) [''PauliX'', ''PauliY'']
            then set_entry row (snd p + num_qubits) else Inr row) of
        Inl e \<Rightarrow> Inl e
      | Inr row' \<Rightarrow>
          if is_in (fst p) [''PauliZ'', ''PauliY''] then set_entry row' (snd p) else Inr row')"

fun encode_pairs :: "nat \<Rightarrow> int list \<Rightarrow> (pyval \<times> nat) list \<Rightarrow> error + int list" where
  "encode_pairs num_qubits row [] = Inr row"
| "encode_pairs num_qubits row (p # ps) =
     (case encode_pair num_qubits row p of
        Inl e \<Rightarrow> Inl e
      | Inr row' \<Rightarrow> encode_pairs num_qubits row' ps)"

definition encode_term :: "nat \<Rightarrow> observable \<Rightarrow> error + int list" where
  "encode_term num_qubits t =
     encode_pairs num_qubits (replicate (2 * num_qubits) 0) (zip (ops_of t) (wires t))"

fun encode_terms :: "nat \<Rightarrow> observable list \<Rightarrow> error + matrix" where
  "encode_terms num_qubits [] = Inr []"
| "encode_terms num_qubits (t # ts) =
     (case encode_term num_qubits t of
        Inl e \<Rightarrow> Inl e
      | Inr row \<Rightarrow>
          (case encode_terms num_qubits ts of
             Inl e \<Rightarrow> Inl e
           | Inr rows \<Rightarrow> Inr (row # rows)))"

definition binary_matrix :: "observable list \<Rightarrow> nat \<Rightarrow> error + matrix" where
  "binary_matrix terms num_qubits = encode_terms num_qubits terms"

section \<open>\<open>_reduced_row_echelon\<close>\<close>

text \<open>\<open>np.argmax\<close>: the index of the first occurrence of the largest element.\<close>

fun argmax_from :: "nat \<Rightarrow> int \<Rightarrow> nat \<Rightarrow> int list \<Rightarrow> nat" where
  "argmax_from best bv i [] = best"
| "argmax_from best bv i (x # xs) =
     (if bv < x then argmax_from i x (Suc i) xs else argmax_from best bv (Suc i) xs)"

definition argmax :: "int list \<Rightarrow> nat" where
  "argmax xs = (case xs of [] \<Rightarrow> 0 | x # ys \<Rightarrow> argmax_from 0 x 1 ys)"

definition column :: "matrix \<Rightarrow> nat \<Rightarrow> int list" where
  "column m icol = map (\<lambda>r. r ! icol) m"

text \<open>
  \<open>rref[krow], rref[irow] = deepcopy(rref[irow]), deepcopy(rref[krow])\<close>: both right-hand
  sides are read first, then row \<open>krow\<close> is written, then row \<open>irow\<close>.
\<close>

definition swap_rows :: "matrix \<Rightarrow> nat \<Rightarrow> nat \<Rightarrow> matrix" where
  "swap_rows m irow krow = m[krow := m ! irow, irow := m ! krow]"

text \<open>
  \<open>pvtcols = rref[irow, icol:]\<close>, \<open>currcol = deepcopy(rref[:, icol]); currcol[irow] = 0\<close>,
  \<open>rref[:, icol:] ^= np.outer(currcol, pvtcols)\<close>. The outer product is evaluated before
  the in-place XOR writes anything.
\<close>

definition eliminate :: "matrix \<Rightarrow> nat \<Rightarrow> nat \<Rightarrow> matrix" where
  "eliminate m irow icol =
     (let pvtcols = drop icol (m ! irow);
          currcol = (column m icol)[irow := 0]
      in map2 (\<lambda>c r. take icol r @ map2 (\<lambda>a p. a XOR (c * p)) (drop icol r) pvtcols)
           currcol m)"

definition rref_step :: "nat \<times> nat \<Rightarrow> matrix \<Rightarrow> matrix" where
  "rref_step p m =
     (let irow = fst p; icol = snd p;
          krow = irow + argmax (drop irow (column m icol))
      in eliminate (swap_rows m irow krow) irow icol)"

text \<open>
  \<open>shape[1]\<close>. For a matrix with no rows the loop of \<open>_reduced_row_echelon\<close> runs zero
  times whatever the column count is.
\<close>

definition ncols :: "matrix \<Rightarrow> nat" where
  "ncols m = (case m of [] \<Rightarrow> 0 | r # _ \<Rightarrow> length r)"

definition reduced_row_echelon :: "matrix \<Rightarrow> matrix" where
  "reduced_row_echelon m = fold rref_step (zip [0..<length m] [0..<ncols m]) m"

subsection \<open>The same function on a store of arrays\<close>

text \<open>
  \<open>_reduced_row_echelon\<close> copies its argument (\<open>deepcopy\<close>, line 81), mutates the copy in
  place in the loop, and returns \<open>rref_binary_matrix.astype(int)\<close>, a new array. A store is
  the list of all arrays allocated so far; an array's address is its index in the store.
\<close>

type_synonym store = "matrix list"

definition alloc :: "store \<Rightarrow> matrix \<Rightarrow> store \<times> nat" where
  "alloc st m = (st @ [m], length st)"

definition deepcopy :: "store \<Rightarrow> nat \<Rightarrow> store \<times> nat" where
  "deepcopy st a = alloc st (st ! a)"

definition astype_int :: "store \<Rightarrow> nat \<Rightarrow> store \<times> nat" where
  "astype_int st a = alloc st (st ! a)"

definition rref_step_st :: "nat \<Rightarrow> nat \<times> nat \<Rightarrow> store \<Rightarrow> store" where
  "rref_step_st a p st = st[a := rref_step p (st ! a)]"

definition reduced_row_echelon_st :: "store \<Rightarrow> nat \<Rightarrow> store \<times> nat" where
  "reduced_row_echelon_st st binary_matrix_ref =
     (let (st1, rref) = deepcopy st binary_matrix_ref;
          shape = (length (st1 ! rref), ncols (st1 ! rref));
          st2 = fold (rref_step_st rref) (zip [0..<fst shape] [0..<snd shape]) st1
      in astype_int st2 rref)"

section \<open>\<open>_kernel\<close>\<close>

text \<open>
  \<open>(binary_matrix.T != 0).argmax(axis=0)\<close>: for each row, the index of its first nonzero
  entry, and 0 for a row of zeros (argmax of an all-False vector).
\<close>

definition first_nonzero :: "int list \<Rightarrow> nat" where
  "first_nonzero row = argmax (map (\<lambda>x. if x \<noteq> 0 then 1 else 0) row)"

text \<open>\<open>np.setdiff1d(range(n), pivots)\<close>: the sorted values of \<open>range(n)\<close> not in \<open>pivots\<close>.\<close>

definition setdiff1d_range :: "nat \<Rightarrow> nat list \<Rightarrow> nat list" where
  "setdiff1d_range n pivots = filter (\<lambda>c. c \<notin> set pivots) [0..<n]"

text \<open>\<open>null_vector[nonpivots, np.arange(len(nonpivots))] = 1\<close>\<close>

definition seed_free :: "nat list \<Rightarrow> matrix \<Rightarrow> matrix" where
  "seed_free nonpivots null_vector =
     fold (\<lambda>j nv. nv[nonpivots ! j := (nv ! (nonpivots ! j))[j := 1]])
       [0..<length nonpivots] null_vector"

text \<open>
  \<open>null_vector[np.ix_(pivots, arange)] = -binary_matrix[np.ix_(arange, nonpivots)] % 2\<close>:
  row \<open>pivots[i]\<close> of \<open>null_vector\<close> receives row \<open>i\<close> of the matrix restricted to the
  non-pivot columns, negated modulo 2; where two rows have the same pivot the later
  assignment stays.
\<close>

definition fill_pivots :: "matrix \<Rightarrow> nat list \<Rightarrow> nat list \<Rightarrow> matrix \<Rightarrow> matrix" where
  "fill_pivots m pivots nonpivots null_vector =
     fold (\<lambda>i nv. nv[pivots ! i := map (\<lambda>c. (- (m ! i ! c)) mod 2) nonpivots])
       [0..<length pivots] null_vector"

text \<open>\<open>null_vector.T\<close> for a matrix with \<open>k\<close> columns.\<close>

definition transpose_cols :: "nat \<Rightarrow> matrix \<Rightarrow> matrix" where
  "transpose_cols k nv = map (\<lambda>j. map (\<lambda>r. r ! j) nv) [0..<k]"

text \<open>
  A matrix with no columns makes \<open>argmax\<close> raise ValueError (an empty sequence); a matrix
  with columns but no rows makes \<open>binary_matrix[0]\<close> raise IndexError. For the matrix with
  no rows the list of rows does not tell the two apart, and the model answers IndexError.
\<close>

definition kernel_Z2 :: "matrix \<Rightarrow> error + matrix" where
  "kernel_Z2 m =
     (if m = [] then Inl IndexError
      else if ncols m = 0 then Inl ValueError
      else
        let pivots = map first_nonzero m;
            nonpivots = setdiff1d_range (length (m ! 0)) pivots;
            null_vector = replicate (ncols m) (replicate (length nonpivots) 0);
            null_vector = seed_free nonpivots null_vector;
            null_vector = fill_pivots m pivots nonpivots null_vector
        in Inr (transpose_cols (length nonpivots) null_vector))"

section \<open>\<open>generate_taus\<close>\<close>

text \<open>
  \<open>pauli_map[f"{x}{z}"]\<close>: the dictionary has the keys "00", "10", "11" and "01", which are
  the formatted pairs of the integers 0 and 1; any other pair raises KeyError.
\<close>

definition pauli_map :: "int \<times> int \<Rightarrow> error + string" where
  "pauli_map p =
     (if p = (0, 0) then Inr ''Identity''
      else if p = (1, 0) then Inr ''PauliX''
      else if p = (1, 1) then Inr ''PauliY''
      else if p = (0, 1) then Inr ''PauliZ''
      else Inl KeyError)"

text \<open>
  The loop \<open>tau = qml.Identity(0); for idx, op in enumerate(zip(...)): tau @= ...\<close>. A
  tensor product is kept as the list of its factors (operator name, wire), in order.
\<close>

fun tau_loop :: "(string \<times> nat) list \<Rightarrow> (nat \<times> int \<times> int) list \<Rightarrow> error + (string \<times> nat) list"
  where
  "tau_loop tau [] = Inr tau"
| "tau_loop tau ((idx, op) # rest) =
     (case pauli_map op of
        Inl e \<Rightarrow> Inl e
      | Inr cls \<Rightarrow> tau_loop (tau @ [(cls, idx)]) rest)"

text \<open>
  Modelled from the spec: the constructor \<open>qml.Hamiltonian([1.0], [tau], simplify=True)\<close>
  of the operator-algebra layer is not part of the module. The spec says that identity
  labels act as no-ops in the product, that the Pauli string is packaged with coefficient
  1.0 as a one-term weighted sum, and that repeated identity factors are simplified away.
  A product with one remaining factor is that operator (its name a string), a product of
  several factors is a tensor (its name a list); a product of identities only is the
  identity on wire 0, the seed of the loop.
\<close>

definition prune :: "(string \<times> nat) list \<Rightarrow> observable" where
  "prune tau =
     (case filter (\<lambda>f. fst f \<noteq> ''Identity'') tau of
        [] \<Rightarrow> \<lparr>name = Name ''Identity'', wires = [0]\<rparr>
      | [f] \<Rightarrow> \<lparr>name = Name (fst f), wires = [snd f]\<rparr>
      | fs \<Rightarrow> \<lparr>name = Names (map fst fs), wires = map snd fs\<rparr>)"

definition Hamiltonian_simplify :: "(string \<times> nat) list \<Rightarrow> hamiltonian" where
  "Hamiltonian_simplify tau = \<lparr>coeffs = [1], ops = OpsList [prune tau]\<rparr>"

definition generate_tau :: "nat \<Rightarrow> int list \<Rightarrow> error + hamiltonian" where
  "generate_tau num_qubits null_vector =
     (let pairs = zip (take num_qubits null_vector) (drop num_qubits null_vector)
      in case tau_loop [(''Identity'', 0)] (zip [0..<length pairs] pairs) of
           Inl e \<Rightarrow> Inl e
         | Inr tau \<Rightarrow> Inr (Hamiltonian_simplify tau))"

fun generate_taus :: "matrix \<Rightarrow> nat \<Rightarrow> error + hamiltonian list" where
  "generate_taus [] num_qubits = Inr []"
| "generate_taus (null_vector # rest) num_qubits =
     (case generate_tau num_qubits null_vector of
        Inl e \<Rightarrow> Inl e
      | Inr ham \<Rightarrow>
          (case generate_taus rest num_qubits of
             Inl e \<Rightarrow> Inl e
           | Inr generators \<Rightarrow> Inr (ham # generators)))"

section \<open>\<open>generate_paulis\<close>\<close>

text \<open>\<open>g.ops[0] if isinstance(g.ops, list) else g.ops\<close>\<close>

definition first_op :: "hamiltonian \<Rightarrow> error + observable" where
  "first_op g =
     (case ops g of
        OpsList [] \<Rightarrow> Inl IndexError
      | OpsList (t # _) \<Rightarrow> Inr t
      | OpsObs t \<Rightarrow> Inr t)"

fun ops_generator :: "hamiltonian list \<Rightarrow> error + observable list" where
  "ops_generator [] = Inr []"
| "ops_generator (g # gs) =
     (case first_op g of
        Inl e \<Rightarrow> Inl e
      | Inr t \<Rightarrow>
          (case ops_generator gs of
             Inl e \<Rightarrow> Inl e
           | Inr ts \<Rightarrow> Inr (t # ts)))"

definition PauliX :: "nat \<Rightarrow> observable" where
  "PauliX wire = \<lparr>name = Name ''PauliX'', wires = [wire]\<rparr>"

text \<open>\<open>np.delete(bmat, row, axis=0)\<close>\<close>

definition delete_row :: "matrix \<Rightarrow> nat \<Rightarrow> matrix" where
  "delete_row bmat row = take row bmat @ drop (Suc row) bmat"

text \<open>
  The condition of the inner loop: \<open>bmatrow[col]\<close> is nonzero and column \<open>col\<close> of the other
  rows equals the zero vector.
\<close>

definition qualifies :: "matrix \<Rightarrow> nat \<Rightarrow> nat \<Rightarrow> bool" where
  "qualifies bmat row col =
     (bmat ! row ! col \<noteq> 0 \<and> list_all (\<lambda>r. r ! col = 0) (delete_row bmat row))"

text \<open>
  The inner loop with its \<open>break\<close>: the first qualifying column of
  \<open>range(bmat.shape[1] // 2)\<close>, if there is one. The loop has no \<open>else\<close> branch.
\<close>

definition first_col :: "matrix \<Rightarrow> nat \<Rightarrow> nat option" where
  "first_col bmat row = find (qualifies bmat row) [0..<ncols bmat div 2]"

definition sigma_x_of :: "matrix \<Rightarrow> observable list" where
  "sigma_x_of bmat =
     List.map_filter (\<lambda>row. map_option PauliX (first_col bmat row)) [0..<length bmat]"

definition generate_paulis :: "hamiltonian list \<Rightarrow> nat \<Rightarrow> error + observable list" where
  "generate_paulis generators num_qubits =
     (case ops_generator generators of
        Inl e \<Rightarrow> Inl e
      | Inr og \<Rightarrow>
          (case binary_matrix og num_qubits of
             Inl e \<Rightarrow> Inl e
           | Inr bmat \<Rightarrow> Inr (sigma_x_of bmat)))"

section \<open>\<open>generate_symmetries\<close>\<close>

text \<open>\<open>rref_binary_matrix[~np.all(rref_binary_matrix == 0, axis=1)]\<close>\<close>

definition remove_zero_rows :: "matrix \<Rightarrow> matrix" where
  "remove_zero_rows m = filter (\<lambda>r. \<not> list_all (\<lambda>x. x = 0) r) m"

text \<open>
  \<open>_binary_matrix(qubit_op.ops, num_qubits)\<close> takes \<open>len\<close> of its first argument, which a
  single observable does not have.
\<close>

definition generate_symmetries ::
  "hamiltonian \<Rightarrow> nat \<Rightarrow> error + hamiltonian list \<times> observable list" where
  "generate_symmetries qubit_op num_qubits =
     (case ops qubit_op of
        OpsObs _ \<Rightarrow> Inl TypeError
      | OpsList terms \<Rightarrow>
     (case binary_matrix terms num_qubits of
        Inl e \<Rightarrow> Inl e
      | Inr bm \<Rightarrow>
     (let rref_binary_matrix = reduced_row_echelon bm;
          rref_binary_matrix_red = remove_zero_rows rref_binary_matrix
      in case kernel_Z2 rref_binary_matrix_red of
           Inl e \<Rightarrow> Inl e
         | Inr nullspace \<Rightarrow>
     (case generate_taus nullspace num_qubits of
        Inl e \<Rightarrow> Inl e
      | Inr generators \<Rightarrow>
     (case generate_paulis generators num_qubits of
        Inl e \<Rightarrow> Inl e
      | Inr pauli_x \<Rightarrow> Inr (generators, pauli_x))))))"

section \<open>Notions of the specification\<close>

text \<open>
  The product of a matrix row with a vector over GF(2), and membership of a vector in the
  right nullspace of a matrix.
\<close>

definition dot_mod2 :: "int list \<Rightarrow> int list \<Rightarrow> int" where
  "dot_mod2 a b = sum_list (map2 (*) a b) mod 2"

definition in_nullspace :: "matrix \<Rightarrow> int list \<Rightarrow> bool" where
  "in_nullspace m v = list_all (\<lambda>r. dot_mod2 r v = 0) m"

text \<open>
  The column of the leading entry of a row (none for a row of zeros), and the two
  invariants of a reduced row-echelon form: the leading entry of a nonzero row is strictly
  to the right of the leading entry of every nonzero row above it, and the column of a
  leading entry is zero in every other row.
\<close>

definition leading :: "int list \<Rightarrow> nat option" where
  "leading r = find (\<lambda>c. r ! c \<noteq> 0) [0..<length r]"

definition echelon :: "matrix \<Rightarrow> bool" where
  "echelon m =
     list_all (\<lambda>j. list_all (\<lambda>i.
        case (leading (m ! i), leading (m ! j)) of
          (Some a, Some b) \<Rightarrow> a < b
        | _ \<Rightarrow> True) [0..<j]) [0..<length m]"

definition reduced :: "matrix \<Rightarrow> bool" where
  "reduced m =
     list_all (\<lambda>i.
        case leading (m ! i) of
          None \<Rightarrow> True
        | Some c \<Rightarrow> list_all (\<lambda>k. k = i \<or> m ! k ! c = 0) [0..<length m]) [0..<length m]"

text \<open>The scenario of the docstrings: the terms Z0 X1, Z0 Y2 and X0 Y3 on four qubits.\<close>

definition scenario_terms :: "observable list" where
  "scenario_terms =
     [\<lparr>name = Names [''PauliZ'', ''PauliX''], wires = [0, 1]\<rparr>,
      \<lparr>name = Names [''PauliZ'', ''PauliY''], wires = [0, 2]\<rparr>,
      \<lparr>name = Names [''PauliX'', ''PauliY''], wires = [0, 3]\<rparr>]"

definition scenario_matrix :: matrix where
  "scenario_matrix =
     [[1, 0, 0, 0, 0, 1, 0, 0], [1, 0, 1, 0, 0, 0, 1, 0], [0, 0, 0, 1, 1, 0, 0, 1]]"

definition scenario_rref :: matrix where
  "scenario_rref =
     [[1, 0, 0, 0, 0, 1, 0, 0], [0, 0, 1, 1, 1, 1, 1, 1], [0, 0, 0, 1, 1, 0, 0, 1]]"

text \<open>
  The factors of a Pauli term, as (operator name, wire) pairs, and what it means that a
  term acts as one of some operators on a qubit. A plain term is a single operator on one
  wire (its name is a string) or a tensor product on a number of wires other than one (its
  name is a list).
\<close>

definition plain_term :: "observable \<Rightarrow> bool" where
  "plain_term t =
     (case name t of Name s \<Rightarrow> length (wires t) = 1 | Names l \<Rightarrow> length (wires t) \<noteq> 1)"

definition factors :: "observable \<Rightarrow> (string \<times> nat) list" where
  "factors t =
     (case name t of Name s \<Rightarrow> map (\<lambda>w. (s, w)) (wires t) | Names l \<Rightarrow> zip l (wires t))"

definition acts_as :: "observable \<Rightarrow> string list \<Rightarrow> nat \<Rightarrow> bool" where
  "acts_as t labels i = list_ex (\<lambda>f. snd f = i \<and> fst f \<in> set labels) (factors t)"

definition wires_below :: "nat \<Rightarrow> observable \<Rightarrow> bool" where
  "wires_below n t = list_all (\<lambda>w. w < n) (wires t)"

text \<open>
  The symplectic inner product of two encoded Pauli words on \<open>n\<close> qubits: the sum over
  the qubits of the cross terms between the two halves, modulo 2. It is 1 when the words
  anticommute and 0 when they commute.
\<close>

definition symplectic :: "nat \<Rightarrow> int list \<Rightarrow> int list \<Rightarrow> int" where
  "symplectic n a b =
     sum_list (map (\<lambda>k. a ! k * b ! (n + k) + a ! (n + k) * b ! k) [0..<n]) mod 2"

text \<open>
  Full column rank over GF(2): no nonzero 0/1 vector of length \<open>c\<close> is in the nullspace of
  the matrix. The vectors are enumerated, so the notion can be evaluated.
\<close>

fun binary_vectors :: "nat \<Rightarrow> int list list" where
  "binary_vectors 0 = [[]]"
| "binary_vectors (Suc n) = map ((#) 0) (binary_vectors n) @ map ((#) 1) (binary_vectors n)"

definition full_column_rank :: "matrix \<Rightarrow> nat \<Rightarrow> bool" where
  "full_column_rank m c =
     list_all (\<lambda>v. v = replicate c 0 \<or> \<not> in_nullspace m v) (binary_vectors c)"

text \<open>
  The state of the reduction after \<open>k\<close> passes on a 0/1 matrix with \<open>R\<close> rows and \<open>c\<close> columns
  of full column rank: the first \<open>k\<close> columns are those of the identity matrix.
\<close>

definition reduced_upto :: "nat \<Rightarrow> nat \<Rightarrow> nat \<Rightarrow> matrix \<Rightarrow> bool" where
  "reduced_upto R c k m =
     (length m = R \<and> (\<forall>r<R. length (m ! r) = c \<and> set (m ! r) \<subseteq> {0, 1}) \<and>
      full_column_rank m c \<and> (\<forall>j<k. \<forall>r<R. m ! r ! j = (if r = j then 1 else 0)))"

text \<open>Row \<open>r\<close> of the identity matrix with \<open>c\<close> columns.\<close>

definition unit_row :: "nat \<Rightarrow> nat \<Rightarrow> int list" where
  "unit_row c r = (replicate c 0)[r := 1]"

section \<open>The scenario of the docstrings\<close>

text \<open>
  C2. On the terms Z0 X1, Z0 Y2, X0 Y3 with four qubits, \<open>_binary_matrix\<close> returns the
  matrix of its docstring, \<open>_reduced_row_echelon\<close> of that matrix returns the matrix of
  its docstring, and \<open>generate_symmetries\<close> returns the generators X1, Z0 X2 X3, X0 Z1 X2,
  Y2, X2 Y3 in this order (together with the Pauli-X operators on wires 0, 1, 2, 3).
\<close>

theorem concrete_scenario:
  "binary_matrix scenario_terms 4 = Inr scenario_matrix \<and>
   reduced_row_echelon scenario_matrix = scenario_rref \<and>
   generate_symmetries \<lparr>coeffs = [1, 1, 1], ops = OpsList scenario_terms\<rparr> 4 =
     Inr ([\<lparr>coeffs = [1], ops = OpsList [\<lparr>name = Name ''PauliX'', wires = [1]\<rparr>]\<rparr>,
           \<lparr>coeffs = [1], ops = OpsList
              [\<lparr>name = Names [''PauliZ'', ''PauliX'', ''PauliX''], wires = [0, 2, 3]\<rparr>]\<rparr>,
           \<lparr>coeffs = [1], ops = OpsList
              [\<lparr>name = Names [''PauliX'', ''PauliZ'', ''PauliX''], wires = [0, 1, 2]\<rparr>]\<rparr>,
           \<lparr>coeffs = [1], ops = OpsList [\<lparr>name = Name ''PauliY'', wires = [2]\<rparr>]\<rparr>,
           \<lparr>coeffs = [1], ops = OpsList
              [\<lparr>name = Names [''PauliX'', ''PauliY''], wires = [2, 3]\<rparr>]\<rparr>],
          [PauliX 0, PauliX 1, PauliX 2, PauliX 3])"
  by code_simp

section \<open>The reduction is not a reduced row-echelon form\<close>

text \<open>
  C4. The loop of \<open>_reduced_row_echelon\<close> advances the row and the column together, also
  when the column has no pivot. On the matrix of the docstring the result has a 1 above
  the leading entry of its last row, so it is not reduced; on the matrix with rows
  \<open>[0, 0, 1]\<close> and \<open>[0, 1, 0]\<close> the result is the input, whose second leading entry is to
  the left of the first, so it is not in echelon form.
\<close>

theorem rref_breaks_invariants:
  "reduced_row_echelon scenario_matrix = scenario_rref \<and> \<not> reduced scenario_rref \<and>
   reduced_row_echelon [[0, 0, 1], [0, 1, 0]] = [[0, 0, 1], [0, 1, 0]] \<and>
   \<not> echelon [[0, 0, 1], [0, 1, 0]]"
  by code_simp

text \<open>
  C7. Reducing the result of the docstring once more changes its second row: the
  reduction is not idempotent.
\<close>

theorem rref_not_idempotent:
  "reduced_row_echelon (reduced_row_echelon scenario_matrix) =
     [[1, 0, 0, 0, 0, 1, 0, 0], [0, 0, 1, 0, 0, 1, 1, 0], [0, 0, 0, 1, 1, 0, 0, 1]] \<and>
   reduced_row_echelon (reduced_row_echelon scenario_matrix) \<noteq>
     reduced_row_echelon scenario_matrix"
  by code_simp

text \<open>
  C5. On the reduced matrix of the docstring (it has no zero rows) \<open>_kernel\<close> returns the
  five vectors of its docstring; the second of them has product 1 with the second row of
  the matrix, so it is not in the nullspace.
\<close>

theorem kernel_outside_nullspace:
  "remove_zero_rows (reduced_row_echelon scenario_matrix) = scenario_rref \<and>
   kernel_Z2 scenario_rref =
     Inr [[0, 1, 0, 0, 0, 0, 0, 0], [0, 0, 1, 1, 1, 0, 0, 0], [1, 0, 1, 0, 0, 1, 0, 0],
          [0, 0, 1, 0, 0, 0, 1, 0], [0, 0, 1, 1, 0, 0, 0, 1]] \<and>
   \<not> in_nullspace scenario_rref [0, 0, 1, 1, 1, 0, 0, 0]"
  by code_simp

section \<open>\<open>generate_paulis\<close> reads the first term of each generator only\<close>

lemma ops_generator_cong:
  "list_all2 (\<lambda>g h. first_op g = first_op h) gs hs \<Longrightarrow> ops_generator gs = ops_generator hs"
  by (induction rule: list_all2_induct) (simp_all split: sum.splits)

text \<open>
  C10. Two lists of generators of the same length that agree pairwise on their first term
  (\<open>g.ops[0]\<close>, or \<open>g.ops\<close> itself when it is not a list) give the same result of
  \<open>generate_paulis\<close> for the same number of qubits, whatever their other terms and
  coefficients are.
\<close>

theorem generate_paulis_first_term:
  assumes "list_all2 (\<lambda>g h. first_op g = first_op h) gs hs"
  shows "generate_paulis gs num_qubits = generate_paulis hs num_qubits"
  using ops_generator_cong [OF assms] by (simp add: generate_paulis_def)

theorem generate_paulis_first_term_witness:
  "generate_paulis
     [\<lparr>coeffs = [1, 1], ops = OpsList [\<lparr>name = Names [''PauliZ'', ''PauliZ''], wires = [0, 1]\<rparr>,
                                        \<lparr>name = Name ''PauliX'', wires = [0]\<rparr>]\<rparr>] 2 =
   generate_paulis
     [\<lparr>coeffs = [1], ops = OpsObs \<lparr>name = Names [''PauliZ'', ''PauliZ''], wires = [0, 1]\<rparr>\<rparr>] 2 \<and>
   generate_paulis
     [\<lparr>coeffs = [1], ops = OpsObs \<lparr>name = Names [''PauliZ'', ''PauliZ''], wires = [0, 1]\<rparr>\<rparr>] 2 =
   Inr [PauliX 0]"
proof -
  let ?t = "\<lparr>name = Names [''PauliZ'', ''PauliZ''], wires = [0, 1]\<rparr>"
  let ?g = "\<lparr>coeffs = [1, 1], ops = OpsList [?t, \<lparr>name = Name ''PauliX'', wires = [0]\<rparr>]\<rparr>"
  let ?h = "\<lparr>coeffs = [1], ops = OpsObs ?t\<rparr>"
  have h: "list_all2 (\<lambda>g h. first_op g = first_op h) [?g] [?h]"
    by (simp add: first_op_def)
  have e: "generate_paulis [?h] 2 = Inr [PauliX 0]"
    by code_simp
  show ?thesis
    using generate_paulis_first_term [OF h, of 2] e by simp
qed

section \<open>The reduction leaves its argument alone\<close>

lemma fold_rref_step_st:
  "r < length s \<Longrightarrow> fold (rref_step_st r) ps s = s[r := fold rref_step ps (s ! r)]"
proof (induction ps arbitrary: s)
  case Nil
  then show ?case by simp
next
  case (Cons p ps)
  then show ?case by (simp add: rref_step_st_def)
qed

text \<open>
  C9. When \<open>_reduced_row_echelon\<close> is called on the array at address \<open>a\<close> of a store, the
  store it leaves holds the same array at \<open>a\<close> (and at every other address that was
  allocated before the call); the result is at a new address, different from \<open>a\<close>, and
  it is the reduction of the argument.
\<close>

theorem reduced_row_echelon_frame:
  assumes "a < length st" and "reduced_row_echelon_st st a = (st', out)"
  shows "st' ! a = st ! a \<and> out \<noteq> a \<and> (\<forall>b<length st. st' ! b = st ! b) \<and>
         out < length st' \<and> st' ! out = reduced_row_echelon (st ! a)"
proof -
  let ?st1 = "st @ [st ! a]"
  let ?r = "length st"
  let ?ps = "zip [0..<length (st ! a)] [0..<ncols (st ! a)]"
  have r: "?r < length ?st1" by simp
  have f: "fold (rref_step_st ?r) ?ps ?st1 = ?st1[?r := reduced_row_echelon (st ! a)]"
    using fold_rref_step_st [OF r, of ?ps] by (simp add: reduced_row_echelon_def)
  have st': "st' = (st @ [reduced_row_echelon (st ! a)]) @ [reduced_row_echelon (st ! a)]"
    and out: "out = Suc (length st)"
    using assms(2) f
    by (simp_all add: reduced_row_echelon_st_def deepcopy_def astype_int_def alloc_def Let_def)
  show ?thesis
    using assms(1) by (simp add: st' out nth_append)
qed

theorem reduced_row_echelon_frame_witness:
  "reduced_row_echelon_st [[[1, 0], [1, 1]]] 0 =
     ([[[1, 0], [1, 1]], [[1, 0], [0, 1]], [[1, 0], [0, 1]]], 2) \<and>
   [[[1, 0], [1, 1]], [[1, 0], [0, 1]], [[1, 0], [0, 1]]] ! 0 = [[[1, 0], [1, 1::int]]] ! 0 \<and>
   [[[1, 0], [1, 1]], [[1, 0], [0, 1]], [[1, 0], [0, 1::int]]] ! 2 =
     reduced_row_echelon ([[[1, 0], [1, 1]]] ! 0)"
proof -
  have h1: "(0::nat) < length [[[1, 0], [1, 1::int]]]" by simp
  have h2: "reduced_row_echelon_st [[[1, 0], [1, 1]]] 0 =
     ([[[1, 0], [1, 1]], [[1, 0], [0, 1]], [[1, 0], [0, 1]]], 2)"
    by code_simp
  show ?thesis
    using reduced_row_echelon_frame [OF h1 h2] h2 by simp
qed

section \<open>The layout of the binary matrix\<close>

lemma encode_pair_Inr:
  assumes "length row = 2 * n" and "snd p < n"
  shows "encode_pair n row p =
    Inr (let r = (if is_in (fst p) [''PauliX'', ''PauliY''] then row[snd p + n := 1] else row)
         in if is_in (fst p) [''PauliZ'', ''PauliY''] then r[snd p := 1] else r)"
  using assms by (simp add: encode_pair_def set_entry_def Let_def)

lemma encode_pair_nth:
  assumes "length row = 2 * n" and "snd p < n"
  shows "\<exists>row'. encode_pair n row p = Inr row' \<and> length row' = 2 * n \<and>
    (\<forall>i<n. row' ! i = (if snd p = i \<and> is_in (fst p) [''PauliZ'', ''PauliY''] then 1 else row ! i) \<and>
            row' ! (n + i) = (if snd p = i \<and> is_in (fst p) [''PauliX'', ''PauliY''] then 1
                              else row ! (n + i)))"
proof -
  define X where "X = is_in (fst p) [''PauliX'', ''PauliY'']"
  define Z where "Z = is_in (fst p) [''PauliZ'', ''PauliY'']"
  define r where "r = (if X then row[snd p + n := 1] else row)"
  define row' where "row' = (if Z then r[snd p := 1] else r)"
  have e: "encode_pair n row p = Inr row'"
    using encode_pair_Inr [OF assms] by (simp add: X_def Z_def r_def row'_def Let_def)
  have l: "length row' = 2 * n" using assms(1) by (simp add: r_def row'_def)
  have "row' ! i = (if snd p = i \<and> Z then 1 else row ! i) \<and>
        row' ! (n + i) = (if snd p = i \<and> X then 1 else row ! (n + i))" if "i < n" for i
    using that assms by (cases X; cases Z) (simp_all add: r_def row'_def nth_list_update)
  then show ?thesis using e l unfolding X_def Z_def by blast
qed


lemma encode_pairs_spec:
  assumes "length row = 2 * n" and "\<forall>p\<in>set ps. snd p < n"
  shows "\<exists>row'. encode_pairs n row ps = Inr row' \<and> length row' = 2 * n \<and>
    (\<forall>i<n. row' ! i = (if \<exists>p\<in>set ps. snd p = i \<and> is_in (fst p) [''PauliZ'', ''PauliY'']
                         then 1 else row ! i) \<and>
            row' ! (n + i) = (if \<exists>p\<in>set ps. snd p = i \<and> is_in (fst p) [''PauliX'', ''PauliY'']
                         then 1 else row ! (n + i)))"
  using assms
proof (induction ps arbitrary: row)
  case Nil
  then show ?case by simp
next
  case (Cons p ps)
  define X where "X = (\<lambda>q :: pyval \<times> nat. is_in (fst q) [''PauliX'', ''PauliY''])"
  define Z where "Z = (\<lambda>q :: pyval \<times> nat. is_in (fst q) [''PauliZ'', ''PauliY''])"
  have p: "snd p < n" using Cons.prems by simp
  from encode_pair_nth [OF Cons.prems(1) p] obtain row1 where
    e: "encode_pair n row p = Inr row1" and l: "length row1 = 2 * n" and
    c1: "\<And>i. i < n \<Longrightarrow> row1 ! i = (if snd p = i \<and> Z p then 1 else row ! i)" and
    d1: "\<And>i. i < n \<Longrightarrow> row1 ! (n + i) = (if snd p = i \<and> X p then 1 else row ! (n + i))"
    unfolding X_def Z_def by blast
  have ps: "\<forall>p\<in>set ps. snd p < n" using Cons.prems(2) by simp
  from Cons.IH [OF l ps] obtain row' where
    r: "encode_pairs n row1 ps = Inr row'" and l': "length row' = 2 * n" and
    c2: "\<And>i. i < n \<Longrightarrow> row' ! i = (if \<exists>q\<in>set ps. snd q = i \<and> Z q then 1 else row1 ! i)" and
    d2: "\<And>i. i < n \<Longrightarrow> row' ! (n + i) = (if \<exists>q\<in>set ps. snd q = i \<and> X q then 1 else row1 ! (n + i))"
    unfolding X_def Z_def by blast
  have r': "encode_pairs n row (p # ps) = Inr row'" using e r by simp
  have c: "row' ! i = (if \<exists>q\<in>set (p # ps). snd q = i \<and> Z q then 1 else row ! i)"
    if "i < n" for i
    using c1 [OF that] c2 [OF that] by auto
  have d: "row' ! (n + i) = (if \<exists>q\<in>set (p # ps). snd q = i \<and> X q then 1 else row ! (n + i))"
    if "i < n" for i
    using d1 [OF that] d2 [OF that] by auto
  show ?case using r' l' c d unfolding X_def Z_def by blast
qed

lemma encode_terms_length: "encode_terms n ts = Inr m \<Longrightarrow> length m = length ts"
  by (induction ts arbitrary: m) (auto split: sum.splits)

lemma encode_terms_nth:
  "encode_terms n ts = Inr m \<Longrightarrow> r < length ts \<Longrightarrow> encode_term n (ts ! r) = Inr (m ! r)"
proof (induction ts arbitrary: m r)
  case Nil
  then show ?case by simp
next
  case (Cons t ts)
  then show ?case by (cases r) (auto split: sum.splits)
qed

lemma encode_terms_Inr:
  "(\<And>t. t \<in> set ts \<Longrightarrow> \<exists>row. encode_term n t = Inr row) \<Longrightarrow> \<exists>m. encode_terms n ts = Inr m"
proof (induction ts)
  case Nil
  then show ?case by simp
next
  case (Cons t ts)
  then obtain row m where "encode_term n t = Inr row" "encode_terms n ts = Inr m"
    by (metis list.set_intros(1,2))
  then show ?case by simp
qed


lemma plain_term_zip:
  assumes "plain_term t"
  shows "zip (ops_of t) (wires t) = map (\<lambda>f. (PStr (fst f), snd f)) (factors t)"
proof (cases "name t")
  case (Name s)
  then obtain w where "wires t = [w]"
    using assms by (cases "wires t") (auto simp: plain_term_def)
  then show ?thesis using Name by (simp add: ops_of_def factors_def)
next
  case (Names l)
  then have "length (wires t) \<noteq> 1" using assms by (simp add: plain_term_def)
  then show ?thesis using Names by (simp add: ops_of_def factors_def zip_map1 case_prod_beta)
qed

lemma plain_term_acts:
  assumes "plain_term t"
  shows "(\<exists>p\<in>set (zip (ops_of t) (wires t)). snd p = i \<and> is_in (fst p) labels) = acts_as t labels i"
  unfolding plain_term_zip [OF assms] acts_as_def list_ex_iff
  by (auto simp: is_in_def)

lemma encode_term_spec:
  assumes "plain_term t" and "wires_below n t"
  shows "\<exists>row. encode_term n t = Inr row \<and> length row = 2 * n \<and>
    (\<forall>i<n. row ! i = (if acts_as t [''PauliZ'', ''PauliY''] i then 1 else 0) \<and>
            row ! (n + i) = (if acts_as t [''PauliX'', ''PauliY''] i then 1 else 0))"
proof -
  have w: "\<forall>p\<in>set (zip (ops_of t) (wires t)). snd p < n"
    using assms(2) by (auto simp: wires_below_def list_all_iff dest: set_zip_rightD)
  have l: "length (replicate (2 * n) (0::int)) = 2 * n" by simp
  from encode_pairs_spec [OF l w] obtain row where
    e: "encode_pairs n (replicate (2 * n) 0) (zip (ops_of t) (wires t)) = Inr row" and
    l': "length row = 2 * n" and
    c: "\<And>i. i < n \<Longrightarrow> row ! i = (if \<exists>p\<in>set (zip (ops_of t) (wires t)). snd p = i \<and>
            is_in (fst p) [''PauliZ'', ''PauliY''] then 1 else replicate (2 * n) 0 ! i)" and
    d: "\<And>i. i < n \<Longrightarrow> row ! (n + i) = (if \<exists>p\<in>set (zip (ops_of t) (wires t)). snd p = i \<and>
            is_in (fst p) [''PauliX'', ''PauliY''] then 1 else replicate (2 * n) 0 ! (n + i))"
    by blast
  have c': "row ! i = (if acts_as t [''PauliZ'', ''PauliY''] i then 1 else 0)" if "i < n" for i
    using c [OF that] that unfolding plain_term_acts [OF assms(1)] by simp
  have d': "row ! (n + i) = (if acts_as t [''PauliX'', ''PauliY''] i then 1 else 0)" if "i < n" for i
    using d [OF that] that unfolding plain_term_acts [OF assms(1)] by simp
  show ?thesis using e l' c' d' unfolding encode_term_def by blast
qed

text \<open>
  C6, as the code has it. For plain terms with all wires below the number of qubits,
  \<open>_binary_matrix\<close> returns a matrix with one row of \<open>2 * n\<close> entries per term; in the row
  of a term, column \<open>i\<close> of the first half is 1 exactly when the term acts as Z or Y on
  qubit \<open>i\<close>, and column \<open>n + i\<close> of the second half is 1 exactly when it acts as X or Y on
  qubit \<open>i\<close>; the other entries are 0. The first half is the Z part and the second the X
  part, as the docstring says.
\<close>

theorem binary_matrix_layout:
  assumes "list_all plain_term terms" and "list_all (wires_below n) terms"
  shows "\<exists>m. binary_matrix terms n = Inr m \<and> length m = length terms \<and>
    (\<forall>r<length terms. length (m ! r) = 2 * n \<and>
       (\<forall>i<n. m ! r ! i = (if acts_as (terms ! r) [''PauliZ'', ''PauliY''] i then 1 else 0) \<and>
               m ! r ! (n + i) = (if acts_as (terms ! r) [''PauliX'', ''PauliY''] i then 1 else 0)))"
proof -
  have t: "\<exists>row. encode_term n t = Inr row" if "t \<in> set terms" for t
    using encode_term_spec [of t n] that assms by (auto simp: list_all_iff)
  from encode_terms_Inr [of terms n] t obtain m where m: "encode_terms n terms = Inr m"
    by blast
  have len: "length m = length terms" using encode_terms_length [OF m] .
  have row: "length (m ! r) = 2 * n \<and>
       (\<forall>i<n. m ! r ! i = (if acts_as (terms ! r) [''PauliZ'', ''PauliY''] i then 1 else 0) \<and>
               m ! r ! (n + i) = (if acts_as (terms ! r) [''PauliX'', ''PauliY''] i then 1 else 0))"
    if "r < length terms" for r
  proof -
    have p: "plain_term (terms ! r)" and w: "wires_below n (terms ! r)"
      using assms that by (auto simp: list_all_length)
    show ?thesis
      using encode_term_spec [OF p w] encode_terms_nth [OF m that] by auto
  qed
  show ?thesis using m len row unfolding binary_matrix_def by blast
qed

theorem binary_matrix_layout_witness:
  "list_all plain_term scenario_terms \<and> list_all (wires_below 4) scenario_terms \<and>
   binary_matrix scenario_terms 4 = Inr scenario_matrix \<and>
   scenario_matrix ! 1 ! 0 = (if acts_as (scenario_terms ! 1) [''PauliZ'', ''PauliY''] 0 then 1 else 0) \<and>
   scenario_matrix ! 1 ! (4 + 2) = (if acts_as (scenario_terms ! 1) [''PauliX'', ''PauliY''] 2 then 1 else 0)"
proof -
  have h1: "list_all plain_term scenario_terms" by code_simp
  have h2: "list_all (wires_below 4) scenario_terms" by code_simp
  have e: "binary_matrix scenario_terms 4 = Inr scenario_matrix" by code_simp
  have r: "(1::nat) < length scenario_terms" by code_simp
  from binary_matrix_layout [OF h1 h2] e r have q:
    "\<forall>i<4. scenario_matrix ! 1 ! i = (if acts_as (scenario_terms ! 1) [''PauliZ'', ''PauliY''] i then 1 else 0) \<and>
            scenario_matrix ! 1 ! (4 + i) = (if acts_as (scenario_terms ! 1) [''PauliX'', ''PauliY''] i then 1 else 0)"
    by auto
  have a: "scenario_matrix ! 1 ! 0 =
      (if acts_as (scenario_terms ! 1) [''PauliZ'', ''PauliY''] 0 then 1 else 0)"
    using q [rule_format, of 0] by simp
  have b: "scenario_matrix ! 1 ! (4 + 2) =
      (if acts_as (scenario_terms ! 1) [''PauliX'', ''PauliY''] 2 then 1 else 0)"
    using q [rule_format, of 2] by simp
  show ?thesis using h1 h2 e a b by blast
qed

text \<open>
  The term X0 on one qubit is encoded as the row \<open>[0, 1]\<close>: column 0 of the first half is
  0 although the term acts as X on qubit 0.
\<close>

theorem binary_matrix_layout_counterexample:
  "binary_matrix [\<lparr>name = Name ''PauliX'', wires = [0]\<rparr>] 1 = Inr [[0, 1]] \<and>
   acts_as \<lparr>name = Name ''PauliX'', wires = [0]\<rparr> [''PauliX'', ''PauliY''] 0 \<and>
   [[0, 1 :: int]] ! 0 ! 0 \<noteq> 1"
  by code_simp

section \<open>\<open>generate_paulis\<close> skips a generator without a qualifying column\<close>

lemma ops_generator_length: "ops_generator gs = Inr og \<Longrightarrow> length og = length gs"
  by (induction gs arbitrary: og) (auto split: sum.splits)

lemma length_filter_eq_iff: "(length (filter P xs) = length xs) = (\<forall>x\<in>set xs. P x)"
proof (induction xs)
  case Nil
  then show ?case by simp
next
  case (Cons x xs)
  have "length (filter P xs) \<noteq> Suc (length xs)"
    using length_filter_le [of P xs] by arith
  then show ?case using Cons by simp
qed

lemma sigma_x_of_eq:
  "sigma_x_of bmat =
     map (\<lambda>row. PauliX (the (first_col bmat row)))
       (filter (\<lambda>row. first_col bmat row \<noteq> None) [0..<length bmat])"
  by (simp add: sigma_x_of_def List.map_filter_def comp_def option.map_sel cong: map_cong)

text \<open>
  C3. The claim is that \<open>generate_paulis\<close> raises an error or returns one Pauli-X operator
  for each generator, at the same index. The inner loop appends and breaks on the first
  qualifying column and has no \<open>else\<close> branch, so a generator without a qualifying column
  adds nothing and nothing is raised. For the single generator X0 on one qubit the row of
  the binary matrix is [0, 1], column 0 does not qualify, and the result is the empty list;
  \<open>generate_symmetries\<close> on the Hamiltonian X0 returns that one generator with no Pauli-X
  operator. On the five generators X1, Z0 X2 X3, X0 Z1 X2, Y2, X2 Y3 of the docstring of
  \<open>generate_taus\<close> the result has four operators: X1 is skipped, and the operator at index
  0 is the one found for the generator at index 1.
\<close>

theorem generate_paulis_shorter:
  "generate_paulis
     [\<lparr>coeffs = [1], ops = OpsList [\<lparr>name = Name ''PauliX'', wires = [0]\<rparr>]\<rparr>] 1 = Inr [] \<and>
   binary_matrix [\<lparr>name = Name ''PauliX'', wires = [0]\<rparr>] 1 = Inr [[0, 1]] \<and>
   \<not> qualifies [[0, 1]] 0 0 \<and>
   generate_symmetries \<lparr>coeffs = [1], ops = OpsList [\<lparr>name = Name ''PauliX'', wires = [0]\<rparr>]\<rparr> 1 =
     Inr ([\<lparr>coeffs = [1], ops = OpsList [\<lparr>name = Name ''PauliX'', wires = [0]\<rparr>]\<rparr>], []) \<and>
   generate_paulis
     [\<lparr>coeffs = [1], ops = OpsList [\<lparr>name = Name ''PauliX'', wires = [1]\<rparr>]\<rparr>,
      \<lparr>coeffs = [1], ops = OpsList
         [\<lparr>name = Names [''PauliZ'', ''PauliX'', ''PauliX''], wires = [0, 2, 3]\<rparr>]\<rparr>,
      \<lparr>coeffs = [1], ops = OpsList
         [\<lparr>name = Names [''PauliX'', ''PauliZ'', ''PauliX''], wires = [0, 1, 2]\<rparr>]\<rparr>,
      \<lparr>coeffs = [1], ops = OpsList [\<lparr>name = Name ''PauliY'', wires = [2]\<rparr>]\<rparr>,
      \<lparr>coeffs = [1], ops = OpsList
         [\<lparr>name = Names [''PauliX'', ''PauliY''], wires = [2, 3]\<rparr>]\<rparr>] 4 =
     Inr [PauliX 0, PauliX 1, PauliX 2, PauliX 3]"
  by code_simp

section \<open>The Pauli-X operators anticommute with their own generator only\<close>

lemma encode_pair_binary:
  assumes "encode_pair n row p = Inr row'"
  shows "length row' = length row \<and> set row' \<subseteq> insert 1 (set row)"
proof -
  have u: "set (xs[i := (1::int)]) \<subseteq> insert 1 (set xs)" for xs i
    by (rule set_update_subset_insert)
  show ?thesis
    using assms u [of row "snd p + n"] u [of row "snd p"] u [of "row[snd p + n := 1]" "snd p"]
    by (auto simp: encode_pair_def set_entry_def split: if_splits)
qed

lemma encode_pairs_binary:
  "encode_pairs n row ps = Inr row' \<Longrightarrow>
     length row' = length row \<and> set row' \<subseteq> insert 1 (set row)"
proof (induction ps arbitrary: row)
  case Nil
  then show ?case by auto
next
  case (Cons p ps)
  then obtain row1 where e: "encode_pair n row p = Inr row1" and r: "encode_pairs n row1 ps = Inr row'"
    by (auto split: sum.splits)
  from encode_pair_binary [OF e] Cons.IH [OF r] show ?case by auto
qed

lemma encode_term_binary:
  assumes "encode_term n t = Inr row"
  shows "length row = 2 * n \<and> set row \<subseteq> {0, 1}"
  using encode_pairs_binary [OF assms [unfolded encode_term_def]] by auto

lemma binary_matrix_rows:
  assumes "binary_matrix ts n = Inr m" and "r < length m"
  shows "length (m ! r) = 2 * n \<and> set (m ! r) \<subseteq> {0, 1}"
proof -
  have m: "encode_terms n ts = Inr m" using assms(1) by (simp add: binary_matrix_def)
  have "r < length ts" using encode_terms_length [OF m] assms(2) by simp
  from encode_terms_nth [OF m this] show ?thesis by (rule encode_term_binary)
qed

lemma encode_term_PauliX:
  "q < n \<Longrightarrow> encode_term n (PauliX q) = Inr ((replicate (2 * n) 0)[q + n := 1])"
  by (simp add: encode_term_def PauliX_def ops_of_def encode_pair_def set_entry_def is_in_def)

lemma binary_matrix_PauliX:
  assumes "\<forall>q\<in>set qs. q < n"
  shows "binary_matrix (map PauliX qs) n = Inr (map (\<lambda>q. (replicate (2 * n) 0)[q + n := 1]) qs)"
  using assms by (induction qs) (simp_all add: binary_matrix_def encode_term_PauliX)

lemma sum_list_single:
  "sum_list (map (\<lambda>k. if k = q then c else (0::int)) [0..<n]) = (if q < n then c else 0)"
  by (induction n) auto

lemma symplectic_PauliX:
  assumes "q < n" and "length b = 2 * n"
  shows "symplectic n ((replicate (2 * n) 0)[q + n := 1]) b = b ! q mod 2"
proof -
  have eq: "map (\<lambda>k. (replicate (2 * n) 0)[q + n := 1] ! k * b ! (n + k) +
                  (replicate (2 * n) 0)[q + n := 1] ! (n + k) * b ! k) [0..<n] =
        map (\<lambda>k. if k = q then b ! q else 0) [0..<n]"
    using assms by (intro map_cong refl) (auto simp: nth_list_update)
  show ?thesis unfolding symplectic_def eq sum_list_single using assms(1) by simp
qed

lemma nth_delete_row:
  assumes "j < length m" and "j \<noteq> i"
  shows "m ! j \<in> set (delete_row m i)"
proof (cases "j < i")
  case True
  then have "m ! j = take i m ! j" by simp
  moreover have "j < length (take i m)" using True assms(1) by simp
  ultimately have "m ! j \<in> set (take i m)" by (metis nth_mem)
  then show ?thesis by (simp add: delete_row_def)
next
  case False
  then have g: "Suc i \<le> j" using assms(2) by simp
  then have "m ! j = drop (Suc i) m ! (j - Suc i)" using assms(1) by simp
  moreover have "j - Suc i < length (drop (Suc i) m)" using g assms(1) by simp
  ultimately have "m ! j \<in> set (drop (Suc i) m)" by (metis nth_mem)
  then show ?thesis by (simp add: delete_row_def)
qed

lemma first_col_Some:
  assumes "first_col bmat row = Some c"
  shows "qualifies bmat row c \<and> c < ncols bmat div 2"
proof -
  from assms obtain k where "k < length [0..<ncols bmat div 2]"
    "qualifies bmat row ([0..<ncols bmat div 2] ! k)" "c = [0..<ncols bmat div 2] ! k"
    unfolding first_col_def find_Some_iff by blast
  then show ?thesis by simp
qed


text \<open>
  C1. When \<open>generate_paulis\<close> returns one Pauli-X operator per generator, the encoding of
  the \<open>i\<close>-th operator has symplectic inner product 1 with the encoding of the \<open>i\<close>-th
  generator and 0 with the encoding of every other generator. The encodings are the rows
  of \<open>_binary_matrix\<close>; a generator is encoded by its first term, as \<open>generate_paulis\<close>
  reads it.
\<close>

theorem sigma_x_anticommutes:
  assumes "generate_paulis gs n = Inr sx" and "length sx = length gs"
  shows "\<exists>og bmat smat. ops_generator gs = Inr og \<and> binary_matrix og n = Inr bmat \<and>
           binary_matrix sx n = Inr smat \<and>
           (\<forall>i<length gs. \<forall>j<length gs.
              symplectic n (smat ! i) (bmat ! j) = (if i = j then 1 else 0))"
proof -
  from assms(1) obtain og bmat where
    og: "ops_generator gs = Inr og" and bm: "binary_matrix og n = Inr bmat" and
    s: "sx = sigma_x_of bmat"
    by (auto simp: generate_paulis_def split: sum.splits)
  have len: "length bmat = length gs"
    using encode_terms_length [of n og bmat] ops_generator_length [OF og] bm
    by (simp add: binary_matrix_def)
  define q where "q = (\<lambda>row. the (first_col bmat row))"
  have all: "\<forall>row\<in>set [0..<length bmat]. first_col bmat row \<noteq> None"
    using assms(2) len
      length_filter_eq_iff [of "\<lambda>row. first_col bmat row \<noteq> None" "[0..<length bmat]"]
    unfolding s sigma_x_of_eq by simp
  then have f: "filter (\<lambda>row. first_col bmat row \<noteq> None) [0..<length bmat] = [0..<length bmat]"
    by (simp add: filter_id_conv)
  have sx: "sx = map PauliX (map q [0..<length gs])"
    unfolding s sigma_x_of_eq f q_def using len by simp
  have fc: "first_col bmat i = Some (q i)" if "i < length gs" for i
    using all that len by (auto simp: q_def)
  have rows: "length (bmat ! j) = 2 * n \<and> set (bmat ! j) \<subseteq> {0, 1}" if "j < length gs" for j
    using binary_matrix_rows [OF bm] that len by simp
  have nc: "ncols bmat = 2 * n" if "i < length gs" for i
  proof -
    have pos: "0 < length gs" using that by (cases gs) simp_all
    then have "bmat \<noteq> []" using len by auto
    then have "ncols bmat = length (bmat ! 0)" by (cases bmat) (simp_all add: ncols_def)
    then show ?thesis using rows [OF pos] by simp
  qed
  have qn: "q i < n" and qual: "qualifies bmat i (q i)" if "i < length gs" for i
    using first_col_Some [OF fc [OF that]] nc [OF that] by simp_all
  have "\<forall>x\<in>set (map q [0..<length gs]). x < n" using qn by auto
  from binary_matrix_PauliX [OF this] have sm:
    "binary_matrix sx n = Inr (map (\<lambda>q. (replicate (2 * n) 0)[q + n := 1]) (map q [0..<length gs]))"
    unfolding sx .
  define smat :: matrix
    where "smat = map (\<lambda>q. (replicate (2 * n) 0)[q + n := 1]) (map q [0..<length gs])"
  have sp: "symplectic n (smat ! i) (bmat ! j) = (if i = j then 1 else 0)"
    if i: "i < length gs" and j: "j < length gs" for i j
  proof -
    have "smat ! i = (replicate (2 * n) 0)[q i + n := 1]" using i by (simp add: smat_def)
    then have v: "symplectic n (smat ! i) (bmat ! j) = bmat ! j ! q i mod 2"
      using symplectic_PauliX [OF qn [OF i], of "bmat ! j"] rows [OF j] by simp
    show ?thesis
    proof (cases "i = j")
      case True
      have "bmat ! i ! q i \<noteq> 0" using qual [OF i] by (simp add: qualifies_def)
      moreover have "bmat ! i ! q i \<in> {0, 1}"
        using rows [OF i] qn [OF i] by (metis (no_types, lifting) nth_mem subsetD mult_2 trans_less_add1)
      ultimately have "bmat ! i ! q i = 1" by simp
      then show ?thesis using v True by simp
    next
      case False
      have "bmat ! j \<in> set (delete_row bmat i)"
        using nth_delete_row [of j bmat i] j len False by simp
      then have "bmat ! j ! q i = 0"
        using qual [OF i] by (simp add: qualifies_def list_all_iff)
      then show ?thesis using v False by simp
    qed
  qed
  show ?thesis using og bm sm sp unfolding smat_def by blast
qed

theorem sigma_x_anticommutes_witness:
  "generate_paulis
     [\<lparr>coeffs = [1], ops = OpsList [\<lparr>name = Names [''PauliZ'', ''PauliZ''], wires = [0, 1]\<rparr>]\<rparr>,
      \<lparr>coeffs = [1], ops = OpsList [\<lparr>name = Names [''PauliZ'', ''PauliZ''], wires = [0, 2]\<rparr>]\<rparr>]
     3 = Inr [PauliX 1, PauliX 2] \<and>
   (\<exists>og bmat smat.
      ops_generator
        [\<lparr>coeffs = [1], ops = OpsList [\<lparr>name = Names [''PauliZ'', ''PauliZ''], wires = [0, 1]\<rparr>]\<rparr>,
         \<lparr>coeffs = [1], ops = OpsList [\<lparr>name = Names [''PauliZ'', ''PauliZ''], wires = [0, 2]\<rparr>]\<rparr>]
        = Inr og \<and>
      binary_matrix og 3 = Inr bmat \<and> binary_matrix [PauliX 1, PauliX 2] 3 = Inr smat \<and>
      symplectic 3 (smat ! 0) (bmat ! 0) = 1 \<and> symplectic 3 (smat ! 0) (bmat ! 1) = 0)"
proof -
  let ?gs = "[\<lparr>coeffs = [1], ops = OpsList [\<lparr>name = Names [''PauliZ'', ''PauliZ''], wires = [0, 1]\<rparr>]\<rparr>,
      \<lparr>coeffs = [1::real], ops = OpsList [\<lparr>name = Names [''PauliZ'', ''PauliZ''], wires = [0, 2]\<rparr>]\<rparr>]"
  have h1: "generate_paulis ?gs 3 = Inr [PauliX 1, PauliX 2]" by code_simp
  have h2: "length [PauliX 1, PauliX 2] = length ?gs" by simp
  from sigma_x_anticommutes [OF h1 h2] obtain og bmat smat where
    a: "ops_generator ?gs = Inr og" "binary_matrix og 3 = Inr bmat"
       "binary_matrix [PauliX 1, PauliX 2] 3 = Inr smat" and
    b: "\<forall>i<length ?gs. \<forall>j<length ?gs. symplectic 3 (smat ! i) (bmat ! j) = (if i = j then 1 else 0)"
    by blast
  have "symplectic 3 (smat ! 0) (bmat ! 0) = 1" using b [rule_format, of 0 0] by simp
  moreover have "symplectic 3 (smat ! 0) (bmat ! 1) = 0" using b [rule_format, of 0 1] by simp
  ultimately show ?thesis using h1 a by blast
qed

section \<open>A matrix of full column rank has no symmetries\<close>

lemma zip_upt_diag: "zip [0..<a] [0..<b] = map (\<lambda>k. (k, k)) [0..<min a b]"
proof (rule nth_equalityI)
  show "length (zip [0..<a] [0..<b]) = length (map (\<lambda>k. (k, k)) [0..<min a b])" by simp
next
  fix i assume "i < length (zip [0..<a] [0..<b])"
  then show "zip [0..<a] [0..<b] ! i = map (\<lambda>k. (k, k)) [0..<min a b] ! i" by simp
qed

lemma xor_bit_cases:
  "(0::int) XOR 0 = 0" "(0::int) XOR 1 = 1" "(1::int) XOR 0 = 1" "(1::int) XOR 1 = 0"
  by simp_all

lemma xor_binary:
  assumes "a \<in> {0, 1::int}" and "c \<in> {0, 1}" and "p \<in> {0, 1}"
  shows "a XOR (c * p) \<in> {0, 1}" and "(a XOR (c * p)) mod 2 = (a + c * p) mod 2"
  using assms by auto

lemma argmax_from_spec:
  "(argmax_from best bv i xs = best \<and> (\<forall>x\<in>set xs. x \<le> bv)) \<or>
   (\<exists>j<length xs. argmax_from best bv i xs = i + j \<and> bv < xs ! j \<and>
      (\<forall>x\<in>set xs. x \<le> xs ! j))"
proof (induction xs arbitrary: best bv i)
  case Nil
  then show ?case by simp
next
  case (Cons x xs)
  show ?case
  proof (cases "bv < x")
    case True
    from Cons.IH [of i x "Suc i"] show ?thesis
    proof
      assume a: "argmax_from i x (Suc i) xs = i \<and> (\<forall>y\<in>set xs. y \<le> x)"
      have "0 < length (x # xs) \<and> argmax_from best bv i (x # xs) = i + 0 \<and>
        bv < (x # xs) ! 0 \<and> (\<forall>y\<in>set (x # xs). y \<le> (x # xs) ! 0)"
        using a True by simp
      then show ?thesis by blast
    next
      assume "\<exists>j<length xs. argmax_from i x (Suc i) xs = Suc i + j \<and> x < xs ! j \<and>
        (\<forall>y\<in>set xs. y \<le> xs ! j)"
      then obtain j where j: "j < length xs" "argmax_from i x (Suc i) xs = Suc i + j"
        "x < xs ! j" "\<forall>y\<in>set xs. y \<le> xs ! j" by blast
      have "Suc j < length (x # xs) \<and> argmax_from best bv i (x # xs) = i + Suc j \<and>
        bv < (x # xs) ! Suc j \<and> (\<forall>y\<in>set (x # xs). y \<le> (x # xs) ! Suc j)"
        using j True by simp
      then show ?thesis by blast
    qed
  next
    case False
    from Cons.IH [of best bv "Suc i"] show ?thesis
    proof
      assume "argmax_from best bv (Suc i) xs = best \<and> (\<forall>y\<in>set xs. y \<le> bv)"
      then show ?thesis using False by simp
    next
      assume "\<exists>j<length xs. argmax_from best bv (Suc i) xs = Suc i + j \<and> bv < xs ! j \<and>
        (\<forall>y\<in>set xs. y \<le> xs ! j)"
      then obtain j where j: "j < length xs" "argmax_from best bv (Suc i) xs = Suc i + j"
        "bv < xs ! j" "\<forall>y\<in>set xs. y \<le> xs ! j" by blast
      have "Suc j < length (x # xs) \<and> argmax_from best bv i (x # xs) = i + Suc j \<and>
        bv < (x # xs) ! Suc j \<and> (\<forall>y\<in>set (x # xs). y \<le> (x # xs) ! Suc j)"
        using j False by simp
      then show ?thesis by blast
    qed
  qed
qed

lemma argmax_max:
  assumes "xs \<noteq> []"
  shows "argmax xs < length xs \<and> (\<forall>x\<in>set xs. x \<le> xs ! argmax xs)"
proof -
  from assms obtain x ys where xs: "xs = x # ys" by (cases xs) auto
  from argmax_from_spec [of 0 x 1 ys] show ?thesis
  proof
    assume "argmax_from 0 x 1 ys = 0 \<and> (\<forall>y\<in>set ys. y \<le> x)"
    then show ?thesis by (simp add: xs argmax_def)
  next
    assume "\<exists>j<length ys. argmax_from 0 x 1 ys = 1 + j \<and> x < ys ! j \<and>
      (\<forall>y\<in>set ys. y \<le> ys ! j)"
    then obtain j where j: "j < length ys" "argmax_from 0 x 1 ys = 1 + j" "x < ys ! j"
      "\<forall>y\<in>set ys. y \<le> ys ! j" by blast
    then show ?thesis by (simp add: xs argmax_def)
  qed
qed

lemma argmax_one:
  assumes "set xs \<subseteq> {0, 1}" and "1 \<in> set xs"
  shows "argmax xs < length xs \<and> xs ! argmax xs = 1"
proof -
  have ne: "xs \<noteq> []" using assms(2) by auto
  from argmax_max [OF ne] have l: "argmax xs < length xs" and m: "1 \<le> xs ! argmax xs"
    using assms(2) by auto
  have "xs ! argmax xs \<in> {0, 1}" using l assms(1) by (meson nth_mem subsetD)
  then show ?thesis using l m by auto
qed


lemma binary_vectors_mem:
  "length v = c \<Longrightarrow> set v \<subseteq> {0, 1} \<Longrightarrow> v \<in> set (binary_vectors c)"
proof (induction c arbitrary: v)
  case 0
  then show ?case by simp
next
  case (Suc c)
  from Suc.prems(1) obtain x w where v: "v = x # w" by (cases v) simp_all
  then have "w \<in> set (binary_vectors c)" and "x = 0 \<or> x = 1"
    using Suc.IH [of w] Suc.prems by auto
  then show ?case using v by auto
qed

lemma full_column_rankD:
  assumes "full_column_rank m c" and "length v = c" and "set v \<subseteq> {0, 1}"
    and "in_nullspace m v"
  shows "v = replicate c 0"
  using assms binary_vectors_mem [OF assms(2,3)]
  by (auto simp: full_column_rank_def list_all_iff)

lemma full_column_rankI:
  assumes "\<And>v. length v = c \<Longrightarrow> in_nullspace m v \<Longrightarrow> in_nullspace m' v"
    and "full_column_rank m' c"
  shows "full_column_rank m c"
proof -
  have len: "length v = c" if "v \<in> set (binary_vectors c)" for v
    using that by (induction c arbitrary: v) auto
  show ?thesis
    using assms len unfolding full_column_rank_def list_all_iff by blast
qed

lemma dot_mod2_sum:
  assumes "length a = c" and "length v = c"
  shows "dot_mod2 a v = (\<Sum>j = 0..<c. a ! j * v ! j) mod 2"
proof -
  have "sum_list (map2 (*) a v) = (\<Sum>j = 0..<length (map2 (*) a v). map2 (*) a v ! j)"
    by (rule sum_list_sum_nth)
  also have "\<dots> = (\<Sum>j = 0..<c. a ! j * v ! j)"
    using assms by (intro sum.cong) simp_all
  finally show ?thesis by (simp add: dot_mod2_def)
qed

lemma in_nullspace_nth:
  "in_nullspace m v = (\<forall>r<length m. dot_mod2 (m ! r) v = 0)"
  by (simp add: in_nullspace_def list_all_length)


lemma pivot_exists:
  assumes rows: "\<forall>r<length m. length (m ! r) = c \<and> set (m ! r) \<subseteq> {0, 1}"
    and fcr: "full_column_rank m c"
    and diag: "\<forall>j<k. \<forall>r<length m. m ! r ! j = (if r = j then 1 else 0)"
    and k: "k < c" "k \<le> length m"
  shows "\<exists>r. k \<le> r \<and> r < length m \<and> m ! r ! k = 1"
proof (rule ccontr)
  assume "\<not> ?thesis"
  then have no: "\<And>r. k \<le> r \<Longrightarrow> r < length m \<Longrightarrow> m ! r ! k \<noteq> 1" by blast
  have bin: "m ! r ! j \<in> {0, 1}" if "r < length m" "j < c" for r j
    using rows that by (metis nth_mem subsetD)
  have zero: "m ! r ! k = 0" if "k \<le> r" "r < length m" for r
    using no [OF that] bin [OF that(2) k(1)] by auto
  define v where "v = map (\<lambda>j. if j < k then m ! j ! k else if j = k then 1 else 0) [0..<c]"
  have lv: "length v = c" by (simp add: v_def)
  have vn: "v ! j = (if j < k then m ! j ! k else if j = k then 1 else 0)" if "j < c" for j
    using that by (simp add: v_def)
  have bv: "set v \<subseteq> {0, 1}"
  proof
    fix x assume "x \<in> set v"
    then obtain j where j: "j < c" and x: "x = v ! j"
      using lv by (metis in_set_conv_nth)
    show "x \<in> {0, 1}"
    proof (cases "j < k")
      case True
      then have "j < length m" using k(2) by simp
      then show ?thesis using bin [OF _ k(1)] vn [OF j] True x by simp
    next
      case False
      then show ?thesis using vn [OF j] x by simp
    qed
  qed
  have dot: "dot_mod2 (m ! r) v = 0" if r: "r < length m" for r
  proof -
    have lr: "length (m ! r) = c" using rows r by simp
    have t: "m ! r ! j * v ! j =
        (if r = j then (if r < k then m ! r ! k else 0) else 0) +
        (if k = j then m ! r ! k else 0)" if "j \<in> {0..<c}" for j
    proof -
      have j: "j < c" using that by simp
      consider "j < k" | "j = k" | "k < j" by linarith
      then show ?thesis
      proof cases
        case 1
        then show ?thesis using vn [OF j] diag r by auto
      next
        case 2
        then show ?thesis using vn [OF j] by simp
      next
        case 3
        then show ?thesis using vn [OF j] by auto
      qed
    qed
    have "(\<Sum>j = 0..<c. m ! r ! j * v ! j) =
        (\<Sum>j = 0..<c. (if r = j then (if r < k then m ! r ! k else 0) else 0) +
           (if k = j then m ! r ! k else 0))"
      using t by (rule sum.cong [OF refl])
    also have "\<dots> = (if r \<in> {0..<c} then (if r < k then m ! r ! k else 0) else 0) +
        (if k \<in> {0..<c} then m ! r ! k else 0)"
      unfolding sum.distrib by (simp add: sum.delta')
    also have "\<dots> = (if r < k then m ! r ! k else 0) + m ! r ! k"
      using k(1) by auto
    finally have s: "(\<Sum>j = 0..<c. m ! r ! j * v ! j) = (if r < k then m ! r ! k else 0) + m ! r ! k" .
    show ?thesis
    proof (cases "r < k")
      case True
      then show ?thesis unfolding dot_mod2_sum [OF lr lv] s by simp
    next
      case False
      then have "m ! r ! k = 0" using zero r by simp
      then show ?thesis unfolding dot_mod2_sum [OF lr lv] s using False by simp
    qed
  qed
  have "in_nullspace m v" unfolding in_nullspace_nth using dot by blast
  from full_column_rankD [OF fcr lv bv this] have "v ! k = 0" using k(1) by simp
  then show False using vn [OF k(1)] by simp
qed


lemma eliminate_length: "length (eliminate m k k) = length m"
  by (simp add: eliminate_def column_def Let_def)

lemma eliminate_row:
  assumes "r < length m"
  shows "eliminate m k k ! r =
    take k (m ! r) @
    map2 (\<lambda>a p. a XOR ((if r = k then 0 else m ! r ! k) * p)) (drop k (m ! r)) (drop k (m ! k))"
  using assms by (simp add: eliminate_def column_def Let_def nth_list_update)

lemma eliminate_nth:
  assumes "r < length m" and "length (m ! r) = c" and "length (m ! k) = c"
  shows "length (eliminate m k k ! r) = c"
    and "j < c \<Longrightarrow> eliminate m k k ! r ! j =
      (if j < k then m ! r ! j
       else m ! r ! j XOR ((if r = k then 0 else m ! r ! k) * m ! k ! j))"
proof -
  show "length (eliminate m k k ! r) = c"
    unfolding eliminate_row [OF assms(1)] using assms(2,3) by simp
  assume j: "j < c"
  show "eliminate m k k ! r ! j =
      (if j < k then m ! r ! j
       else m ! r ! j XOR ((if r = k then 0 else m ! r ! k) * m ! k ! j))"
  proof (cases "j < k")
    case True
    then show ?thesis
      unfolding eliminate_row [OF assms(1)] using assms(2,3) j by (simp add: nth_append)
  next
    case False
    then have "j - k < c - k" using j by simp
    then show ?thesis
      unfolding eliminate_row [OF assms(1)] using assms(2,3) j False
      by (simp add: nth_append min_def)
  qed
qed

lemma swap_rows_nth:
  assumes "k < length m" and "kr < length m"
  shows "length (swap_rows m k kr) = length m"
    and "set (swap_rows m k kr) = set m"
    and "r < length m \<Longrightarrow>
      swap_rows m k kr ! r = (if r = k then m ! kr else if r = kr then m ! k else m ! r)"
proof -
  show "length (swap_rows m k kr) = length m" by (simp add: swap_rows_def)
  show "set (swap_rows m k kr) = set m"
    unfolding swap_rows_def using set_swap [OF assms(2,1)] .
  assume "r < length m"
  then show "swap_rows m k kr ! r = (if r = k then m ! kr else if r = kr then m ! k else m ! r)"
    using assms by (simp add: swap_rows_def nth_list_update)
qed


lemma step_swap:
  assumes inv: "reduced_upto R c k m" and k: "k < R" "k < c"
  shows "\<exists>kr. rref_step (k, k) m = eliminate (swap_rows m k kr) k k \<and>
           reduced_upto R c k (swap_rows m k kr) \<and> swap_rows m k kr ! k ! k = 1"
proof -
  have len: "length m = R"
    and rows: "\<forall>r<length m. length (m ! r) = c \<and> set (m ! r) \<subseteq> {0, 1}"
    and fcr: "full_column_rank m c"
    and diag: "\<forall>j<k. \<forall>r<length m. m ! r ! j = (if r = j then 1 else 0)"
    using inv by (simp_all add: reduced_upto_def)
  have kl: "k \<le> length m" using k(1) len by simp
  from pivot_exists [OF rows fcr diag k(2) kl] obtain r0 where
    r0: "k \<le> r0" "r0 < length m" "m ! r0 ! k = 1" by blast
  define col where "col = drop k (column m k)"
  have lcol: "length col = R - k" by (simp add: col_def column_def len)
  have ncol: "col ! i = m ! (k + i) ! k" if "i < R - k" for i
    using that len by (simp add: col_def column_def)
  have bcol: "set col \<subseteq> {0, 1}"
  proof
    fix x assume "x \<in> set col"
    then obtain i where i: "i < R - k" and x: "x = col ! i"
      using lcol by (metis in_set_conv_nth)
    have "k + i < length m" using i len by simp
    then have "m ! (k + i) ! k \<in> set (m ! (k + i))" using rows k(2) by simp
    then show "x \<in> {0, 1}" using rows \<open>k + i < length m\<close> x ncol [OF i] by auto
  qed
  have "col ! (r0 - k) = 1" using ncol [of "r0 - k"] r0 len by simp
  moreover have "r0 - k < length col" using r0 len lcol by simp
  ultimately have "1 \<in> set col" by (metis nth_mem)
  from argmax_one [OF bcol this] have a: "argmax col < R - k" "col ! argmax col = 1"
    using lcol by simp_all
  define kr where "kr = k + argmax col"
  have kr: "k \<le> kr" "kr < length m" "m ! kr ! k = 1"
    using a ncol [OF a(1)] len by (simp_all add: kr_def)
  have klen: "k < length m" using k(1) len by simp
  let ?m1 = "swap_rows m k kr"
  have e: "rref_step (k, k) m = eliminate ?m1 k k"
    by (simp add: rref_step_def Let_def col_def kr_def)
  have l1: "length ?m1 = R" using swap_rows_nth(1) [OF klen kr(2)] len by simp
  have n1: "?m1 ! r = (if r = k then m ! kr else if r = kr then m ! k else m ! r)"
    if "r < R" for r
    using swap_rows_nth(3) [OF klen kr(2)] that len by simp
  have rows1: "\<forall>r<R. length (?m1 ! r) = c \<and> set (?m1 ! r) \<subseteq> {0, 1}"
    using n1 rows kr(2) klen len by simp
  have fcr1: "full_column_rank ?m1 c"
  proof (rule full_column_rankI [OF _ fcr])
    fix v assume "in_nullspace ?m1 v"
    then show "in_nullspace m v"
      unfolding in_nullspace_def list_all_iff swap_rows_nth(2) [OF klen kr(2)] .
  qed
  have diag1: "\<forall>j<k. \<forall>r<R. ?m1 ! r ! j = (if r = j then 1 else 0)"
  proof (intro allI impI)
    fix j r assume j: "j < k" and r: "r < R"
    have a1: "m ! kr ! j = 0" using diag j kr by simp
    have a2: "m ! k ! j = 0" using diag j klen by simp
    have a3: "m ! r ! j = (if r = j then 1 else 0)" using diag j r len by simp
    show "?m1 ! r ! j = (if r = j then 1 else 0)"
      using n1 [OF r] a1 a2 a3 j kr(1) by auto
  qed
  have p: "?m1 ! k ! k = 1" using n1 [OF k(1)] kr(3) by simp
  have "reduced_upto R c k ?m1"
    unfolding reduced_upto_def using l1 rows1 fcr1 diag1 by blast
  then show ?thesis using e p by blast
qed


lemma step_eliminate:
  assumes inv: "reduced_upto R c k m" and k: "k < R" "k < c" and p: "m ! k ! k = 1"
  shows "reduced_upto R c (Suc k) (eliminate m k k)"
proof -
  have len: "length m = R"
    and rows: "\<And>r. r < R \<Longrightarrow> length (m ! r) = c \<and> set (m ! r) \<subseteq> {0, 1}"
    and fcr: "full_column_rank m c"
    and diag: "\<And>j r. j < k \<Longrightarrow> r < R \<Longrightarrow> m ! r ! j = (if r = j then 1 else 0)"
    using inv by (simp_all add: reduced_upto_def)
  let ?m2 = "eliminate m k k"
  define cc where "cc = (\<lambda>r. if r = k then 0 else m ! r ! k)"
  have bin: "m ! r ! j \<in> {0, 1}" if "r < R" "j < c" for r j
    using rows [OF that(1)] that(2) by (metis nth_mem subsetD)
  have bcc: "cc r \<in> {0, 1}" if "r < R" for r
    using bin [OF that k(2)] by (simp add: cc_def)
  have l2: "length ?m2 = R" using eliminate_length len by simp
  have lr2: "length (?m2 ! r) = c" if "r < R" for r
    using eliminate_nth(1) [of r m c k] that len rows k(1) by simp
  have n2: "?m2 ! r ! j = (if j < k then m ! r ! j else m ! r ! j XOR (cc r * m ! k ! j))"
    if "r < R" "j < c" for r j
    using eliminate_nth(2) [of r m c k j] that len rows k(1) by (simp add: cc_def)
  have b2: "?m2 ! r ! j \<in> {0, 1}" if "r < R" "j < c" for r j
    using n2 [OF that] bin [OF that] xor_binary(1) [OF bin [OF that] bcc [OF that(1)] bin [OF k(1) that(2)]]
    by simp
  have rows2: "\<forall>r<R. length (?m2 ! r) = c \<and> set (?m2 ! r) \<subseteq> {0, 1}"
  proof (intro allI impI conjI)
    fix r assume r: "r < R"
    show "length (?m2 ! r) = c" using lr2 [OF r] .
    show "set (?m2 ! r) \<subseteq> {0, 1}"
    proof
      fix x assume "x \<in> set (?m2 ! r)"
      then obtain j where "j < c" "x = ?m2 ! r ! j"
        using lr2 [OF r] by (metis in_set_conv_nth)
      then show "x \<in> {0, 1}" using b2 [OF r] by simp
    qed
  qed
  have diag2: "\<forall>j<Suc k. \<forall>r<R. ?m2 ! r ! j = (if r = j then 1 else 0)"
  proof (intro allI impI)
    fix j r assume j: "j < Suc k" and r: "r < R"
    have jc: "j < c" using j k(2) by simp
    show "?m2 ! r ! j = (if r = j then 1 else 0)"
    proof (cases "j < k")
      case True
      then show ?thesis using n2 [OF r jc] diag [OF True r] by simp
    next
      case False
      then have jk: "j = k" using j by simp
      have "m ! r ! k = 0 \<or> m ! r ! k = 1" using bin [OF r k(2)] by simp
      then show ?thesis using n2 [OF r jc] jk p by (auto simp: cc_def)
    qed
  qed
  have cong: "?m2 ! r ! j mod 2 = (m ! r ! j + cc r * m ! k ! j) mod 2"
    if r: "r < R" and j: "j < c" for r j
  proof (cases "j < k")
    case True
    have "m ! k ! j = 0" using diag [OF True k(1)] True by simp
    then show ?thesis using n2 [OF r j] True by simp
  next
    case False
    then show ?thesis
      using n2 [OF r j] xor_binary(2) [OF bin [OF r j] bcc [OF r] bin [OF k(1) j]] by simp
  qed
  have fcr2: "full_column_rank ?m2 c"
  proof (rule full_column_rankI [OF _ fcr])
    fix v :: "int list" assume lv: "length v = c" and ns: "in_nullspace ?m2 v"
    define D where "D = (\<lambda>r. \<Sum>j = 0..<c. m ! r ! j * v ! j)"
    have d2: "(\<Sum>j = 0..<c. ?m2 ! r ! j * v ! j) mod 2 = 0" if "r < R" for r
      using ns that l2 dot_mod2_sum [OF lr2 [OF that] lv] by (simp add: in_nullspace_nth)
    have rel: "(\<Sum>j = 0..<c. ?m2 ! r ! j * v ! j) mod 2 = (D r + cc r * D k) mod 2"
      if r: "r < R" for r
    proof -
      have "(\<Sum>j = 0..<c. ?m2 ! r ! j * v ! j) mod 2 =
            (\<Sum>j = 0..<c. (?m2 ! r ! j * v ! j) mod 2) mod 2"
        by (simp add: mod_sum_eq)
      also have "\<dots> = (\<Sum>j = 0..<c. ((m ! r ! j + cc r * m ! k ! j) * v ! j) mod 2) mod 2"
      proof -
        have "(?m2 ! r ! j * v ! j) mod 2 = ((m ! r ! j + cc r * m ! k ! j) * v ! j) mod 2"
          if "j \<in> {0..<c}" for j
          using cong [OF r, of j] that by (metis atLeastLessThan_iff mod_mult_left_eq)
        then have "(\<Sum>j = 0..<c. (?m2 ! r ! j * v ! j) mod 2) =
            (\<Sum>j = 0..<c. ((m ! r ! j + cc r * m ! k ! j) * v ! j) mod 2)"
          by (rule sum.cong [OF refl])
        then show ?thesis by (rule arg_cong)
      qed
      also have "\<dots> = (\<Sum>j = 0..<c. (m ! r ! j + cc r * m ! k ! j) * v ! j) mod 2"
        by (simp add: mod_sum_eq)
      also have "(\<Sum>j = 0..<c. (m ! r ! j + cc r * m ! k ! j) * v ! j) = D r + cc r * D k"
        by (simp add: D_def distrib_right sum.distrib sum_distrib_left mult.assoc)
      finally show ?thesis .
    qed
    have dk: "D k mod 2 = 0" using rel [OF k(1)] d2 [OF k(1)] by (simp add: cc_def)
    have dr: "D r mod 2 = 0" if r: "r < R" for r
    proof -
      have "(D r + cc r * D k) mod 2 = 0" using rel [OF r] d2 [OF r] by simp
      moreover have "(cc r * D k) mod 2 = 0" using dk by (simp add: mod_mult_right_eq [symmetric])
      ultimately show ?thesis by presburger
    qed
    show "in_nullspace m v"
      unfolding in_nullspace_nth
      using dr len dot_mod2_sum [OF _ lv] rows by (simp add: D_def)
  qed
  show ?thesis unfolding reduced_upto_def using l2 rows2 fcr2 diag2 by blast
qed

lemma rref_step_inv:
  assumes "reduced_upto R c k m" and "k < R" and "k < c"
  shows "reduced_upto R c (Suc k) (rref_step (k, k) m)"
proof -
  from step_swap [OF assms] obtain kr where
    "rref_step (k, k) m = eliminate (swap_rows m k kr) k k"
    "reduced_upto R c k (swap_rows m k kr)" "swap_rows m k kr ! k ! k = 1" by blast
  then show ?thesis using step_eliminate [OF _ assms(2,3)] by simp
qed


lemma rref_loop_inv:
  assumes "reduced_upto R c 0 m" and "n \<le> R" and "n \<le> c"
  shows "reduced_upto R c n (fold rref_step (map (\<lambda>k. (k, k)) [0..<n]) m)"
  using assms(2,3)
proof (induction n)
  case 0
  then show ?case using assms(1) by simp
next
  case (Suc n)
  then have "reduced_upto R c n (fold rref_step (map (\<lambda>k. (k, k)) [0..<n]) m)" by simp
  from rref_step_inv [OF this] Suc.prems show ?case by simp
qed

lemma reduced_full:
  assumes rows: "\<forall>r<length bm. length (bm ! r) = c \<and> set (bm ! r) \<subseteq> {0, 1}"
    and fcr: "full_column_rank bm c" and c: "0 < c"
  shows "c \<le> length bm \<and>
    reduced_row_echelon bm = map (unit_row c) [0..<c] @ replicate (length bm - c) (replicate c 0)"
proof -
  define R where "R = length bm"
  have inv0: "reduced_upto R c 0 bm"
    unfolding reduced_upto_def using rows fcr R_def by simp
  have "\<exists>r. 0 \<le> r \<and> r < length bm \<and> bm ! r ! 0 = 1"
    by (rule pivot_exists [OF rows fcr _ c]) simp_all
  then have pos: "0 < R" unfolding R_def by auto
  then have nc: "ncols bm = c"
    using rows unfolding R_def ncols_def by (cases bm) auto
  define mf where "mf = reduced_row_echelon bm"
  have mf: "mf = fold rref_step (map (\<lambda>k. (k, k)) [0..<min R c]) bm"
    unfolding mf_def reduced_row_echelon_def nc R_def [symmetric] zip_upt_diag ..
  have invf: "reduced_upto R c (min R c) mf"
    unfolding mf by (rule rref_loop_inv [OF inv0]) simp_all
  then have lf: "length mf = R"
    and rowsf: "\<forall>r<length mf. length (mf ! r) = c \<and> set (mf ! r) \<subseteq> {0, 1}"
    and fcrf: "full_column_rank mf c"
    and diagf: "\<forall>j<min R c. \<forall>r<length mf. mf ! r ! j = (if r = j then 1 else 0)"
    by (simp_all add: reduced_upto_def)
  have Rc: "c \<le> R"
  proof (rule ccontr)
    assume "\<not> c \<le> R"
    then have lt: "R < c" by simp
    then have d: "\<forall>j<R. \<forall>r<length mf. mf ! r ! j = (if r = j then 1 else 0)"
      using diagf by (simp add: min_def)
    have "\<exists>r. R \<le> r \<and> r < length mf \<and> mf ! r ! R = 1"
      by (rule pivot_exists [OF rowsf fcrf d lt]) (simp add: lf)
    then show False using lf by auto
  qed
  have diag: "mf ! r ! j = (if r = j then 1 else 0)" if "j < c" "r < R" for r j
    using diagf that Rc lf by (simp add: min_def)
  have "mf = map (unit_row c) [0..<c] @ replicate (R - c) (replicate c 0)"
  proof (rule nth_equalityI)
    show "length mf = length (map (unit_row c) [0..<c] @ replicate (R - c) (replicate c 0))"
      using lf Rc by simp
  next
    fix r assume "r < length mf"
    then have r: "r < R" using lf by simp
    have lr: "length (mf ! r) = c" using rowsf r lf by simp
    show "mf ! r = (map (unit_row c) [0..<c] @ replicate (R - c) (replicate c 0)) ! r"
    proof (cases "r < c")
      case True
      have "mf ! r = unit_row c r"
      proof (rule nth_equalityI)
        show "length (mf ! r) = length (unit_row c r)" using lr by (simp add: unit_row_def)
      next
        fix j assume "j < length (mf ! r)"
        then have j: "j < c" using lr by simp
        show "mf ! r ! j = unit_row c r ! j"
          using diag [OF j r] j True by (simp add: unit_row_def nth_list_update)
      qed
      then show ?thesis using True by (simp add: nth_append)
    next
      case False
      have "mf ! r = replicate c 0"
      proof (rule nth_equalityI)
        show "length (mf ! r) = length (replicate c (0::int))" using lr by simp
      next
        fix j assume "j < length (mf ! r)"
        then have j: "j < c" using lr by simp
        show "mf ! r ! j = replicate c 0 ! j"
          using diag [OF j r] j False by auto
      qed
      then show ?thesis using False r by (simp add: nth_append)
    qed
  qed
  then show ?thesis using Rc unfolding mf_def R_def by simp
qed


lemma unit_row_nth: "j < c \<Longrightarrow> unit_row c r ! j = (if j = r then 1 else 0)"
  by (auto simp: unit_row_def nth_list_update)

lemma unit_row_length: "length (unit_row c r) = c"
  by (simp add: unit_row_def)

lemma remove_zero_rows_full:
  "remove_zero_rows (map (unit_row c) [0..<c] @ replicate k (replicate c 0)) =
     map (unit_row c) [0..<c]"
proof -
  have a: "\<not> list_all (\<lambda>x. x = 0) (unit_row c r)" if "r < c" for r
  proof
    assume "list_all (\<lambda>x. x = 0) (unit_row c r)"
    then have "unit_row c r ! r = 0" using that by (simp add: list_all_length unit_row_length)
    then show False using unit_row_nth [OF that, of r] by simp
  qed
  have "filter (\<lambda>r. \<not> list_all (\<lambda>x. x = 0) r) (map (unit_row c) [0..<c]) =
        map (unit_row c) [0..<c]"
    using a by (intro filter_True) auto
  moreover have "filter (\<lambda>r. \<not> list_all (\<lambda>x. x = 0) r) (replicate k (replicate c (0::int))) = []"
    by (intro filter_False) (auto simp: list_all_iff)
  ultimately show ?thesis by (simp add: remove_zero_rows_def)
qed

lemma first_nonzero_unit:
  assumes "r < c"
  shows "first_nonzero (unit_row c r) = r"
proof -
  have m: "map (\<lambda>x. if x \<noteq> 0 then 1 else 0) (unit_row c r) = unit_row c r"
    by (simp add: unit_row_def map_update)
  have b: "set (unit_row c r) \<subseteq> {0, 1}"
    using set_update_subset_insert [of "replicate c (0::int)" r 1] by (auto simp: unit_row_def)
  have "unit_row c r ! r = 1" using unit_row_nth [OF assms, of r] by simp
  then have "1 \<in> set (unit_row c r)"
    using assms by (metis nth_mem unit_row_length)
  from argmax_one [OF b this] have
    a: "argmax (unit_row c r) < c" "unit_row c r ! argmax (unit_row c r) = 1"
    by (simp_all add: unit_row_length)
  have "argmax (unit_row c r) = r"
    using a(2) unit_row_nth [OF a(1), of r] by (simp split: if_splits)
  then show ?thesis by (simp add: first_nonzero_def m)
qed

lemma kernel_identity:
  assumes "0 < c"
  shows "kernel_Z2 (map (unit_row c) [0..<c]) = Inr []"
proof -
  let ?m = "map (unit_row c) [0..<c]"
  have ne: "?m \<noteq> []" using assms by simp
  have m0: "?m ! 0 = unit_row c 0" using assms by simp
  have nc: "ncols ?m = c"
    using ne m0 by (cases ?m) (simp_all add: ncols_def unit_row_length)
  have piv: "map first_nonzero ?m = [0..<c]"
    by (rule nth_equalityI) (simp_all add: first_nonzero_unit)
  have np: "setdiff1d_range (length (?m ! 0)) (map first_nonzero ?m) = []"
    unfolding piv m0 unit_row_length by (simp add: setdiff1d_range_def)
  show ?thesis
    unfolding kernel_Z2_def Let_def np using ne nc assms
    by (simp add: transpose_cols_def)
qed


lemma generate_paulis_Nil: "generate_paulis [] n = Inr []"
  by (simp add: generate_paulis_def binary_matrix_def sigma_x_of_def List.map_filter_simps)

text \<open>
  C8 (amended). For every Hamiltonian on N \<ge> 1 qubits whose binary matrix has full column
  rank 2N (no nonzero vector of length 2N is in its nullspace), the pipeline returns an empty
  generator list and an empty list of Pauli-X operators and raises no error: the kernel of
  the reduced matrix without its zero rows is the empty basis, and \<open>generate_taus\<close> and
  \<open>generate_paulis\<close> return empty lists on empty input.
\<close>

theorem full_rank_no_symmetries:
  assumes "ops qubit_op = OpsList terms"
    and "binary_matrix terms n = Inr bm"
    and "full_column_rank bm (2 * n)"
    and "0 < n"
  shows "generate_symmetries qubit_op n = Inr ([], []) \<and>
         kernel_Z2 (remove_zero_rows (reduced_row_echelon bm)) = Inr [] \<and>
         generate_taus [] n = Inr [] \<and>
         generate_paulis [] n = Inr []"
proof -
  have rows: "\<forall>r<length bm. length (bm ! r) = 2 * n \<and> set (bm ! r) \<subseteq> {0, 1}"
    using binary_matrix_rows [OF assms(2)] by blast
  have c: "0 < 2 * n" using assms(4) by simp
  from reduced_full [OF rows assms(3) c] have
    "reduced_row_echelon bm =
       map (unit_row (2 * n)) [0..<2 * n] @ replicate (length bm - 2 * n) (replicate (2 * n) 0)"
    by blast
  then have "remove_zero_rows (reduced_row_echelon bm) = map (unit_row (2 * n)) [0..<2 * n]"
    by (simp only: remove_zero_rows_full)
  then have k: "kernel_Z2 (remove_zero_rows (reduced_row_echelon bm)) = Inr []"
    using kernel_identity [OF c] by simp
  have "generate_symmetries qubit_op n = Inr ([], [])"
    unfolding generate_symmetries_def Let_def
    by (simp add: assms(1) assms(2) k generate_paulis_Nil)
  then show ?thesis using k by (simp add: generate_paulis_Nil)
qed

theorem full_rank_no_symmetries_witness:
  "ops \<lparr>coeffs = [1, 1], ops = OpsList [\<lparr>name = Name ''PauliZ'', wires = [0]\<rparr>,
                                          \<lparr>name = Name ''PauliX'', wires = [0]\<rparr>]\<rparr> =
     OpsList [\<lparr>name = Name ''PauliZ'', wires = [0]\<rparr>, \<lparr>name = Name ''PauliX'', wires = [0]\<rparr>] \<and>
   binary_matrix [\<lparr>name = Name ''PauliZ'', wires = [0]\<rparr>,
                  \<lparr>name = Name ''PauliX'', wires = [0]\<rparr>] 1 = Inr [[1, 0], [0, 1]] \<and>
   full_column_rank [[1, 0], [0, 1]] (2 * 1) \<and> (0::nat) < 1 \<and>
   generate_symmetries
     \<lparr>coeffs = [1, 1], ops = OpsList [\<lparr>name = Name ''PauliZ'', wires = [0]\<rparr>,
                                      \<lparr>name = Name ''PauliX'', wires = [0]\<rparr>]\<rparr> 1 = Inr ([], [])"
proof -
  have a: "ops \<lparr>coeffs = [1, 1], ops = OpsList [\<lparr>name = Name ''PauliZ'', wires = [0]\<rparr>,
                                          \<lparr>name = Name ''PauliX'', wires = [0]\<rparr>]\<rparr> =
     OpsList [\<lparr>name = Name ''PauliZ'', wires = [0]\<rparr>, \<lparr>name = Name ''PauliX'', wires = [0]\<rparr>]"
    by simp
  have b: "binary_matrix [\<lparr>name = Name ''PauliZ'', wires = [0]\<rparr>,
                  \<lparr>name = Name ''PauliX'', wires = [0]\<rparr>] 1 = Inr [[1, 0], [0, 1]]"
    by code_simp
  have c: "full_column_rank [[1, 0], [0, 1]] (2 * 1)"
    by code_simp
  have d: "(0::nat) < 1" by simp
  from full_rank_no_symmetries [OF a b c d] a b c d show ?thesis by blast
qed

text \<open>
  On zero qubits the hypothesis holds (the only vector of length 0 is the zero vector), and
  the pipeline raises: the kernel is asked for the pivots of an array without rows and
  columns.
\<close>

theorem full_rank_zero_qubits_counterexample:
  "binary_matrix [] 0 = Inr [] \<and> full_column_rank [] (2 * 0) \<and>
   isl (generate_symmetries \<lparr>coeffs = [], ops = OpsList []\<rparr> 0)"
  by code_simp

end
